theory Spec2Isabelle
  imports Complex_Main "HOL-Library.Sublist"
begin

section \<open>Text primitives of the lab-record generator (qpp5.py)\<close>

text \<open>
  Python strings are modelled as \<^typ>\<open>string\<close>; every \<^typ>\<open>char\<close> stands for one code
  point in the range U+0000 .. U+00FF. The character classes below are Python's on that
  range: \<open>str.isspace\<close> (which is also what \<open>\s\<close> matches in a \<open>str\<close> pattern),
  the decimal digits matched by \<open>\d\<close>, and \<open>str.lower\<close>.
\<close>

definition py_isspace :: "char \<Rightarrow> bool" where
  "py_isspace c \<longleftrightarrow> c \<in> set [CHR 0x09, CHR 0x0A, CHR 0x0B, CHR 0x0C, CHR 0x0D,
     CHR 0x1C, CHR 0x1D, CHR 0x1E, CHR 0x1F, CHR 0x20, CHR 0x85, CHR 0xA0]"

definition py_isdigit :: "char \<Rightarrow> bool" where
  "py_isdigit c \<longleftrightarrow> c \<in> set ''0123456789''"

text \<open>The separator class \<open>[:\-\.]\<close> used by both label patterns.\<close>

definition is_sep :: "char \<Rightarrow> bool" where
  "is_sep c \<longleftrightarrow> c \<in> set '':-.''"

definition lower_char :: "char \<Rightarrow> char" where
  "lower_char c =
     (let n = (of_char c :: nat)
      in if (65 \<le> n \<and> n \<le> 90) \<or> (192 \<le> n \<and> n \<le> 222 \<and> n \<noteq> 215)
         then char_of (n + 32) else c)"

definition lower :: "string \<Rightarrow> string" where
  "lower s = map lower_char s"

text \<open>\<open>s.strip()\<close>: leading and trailing whitespace removed.\<close>

definition strip :: "string \<Rightarrow> string" where
  "strip s = rev (dropWhile py_isspace (rev (dropWhile py_isspace s)))"

text \<open>\<open>s.split('\n')\<close>: the pieces between newlines; never an empty list.\<close>

fun split_nl :: "string \<Rightarrow> string list" where
  "split_nl [] = [[]]"
| "split_nl (c # cs) =
     (if c = CHR 0x0A then [] # split_nl cs
      else (case split_nl cs of
              l # ls \<Rightarrow> (c # l) # ls
            | [] \<Rightarrow> [[c]]))"

text \<open>\<open>sub in s\<close> on strings: some suffix of \<open>s\<close> starts with \<open>sub\<close>.\<close>

fun contains :: "string \<Rightarrow> string \<Rightarrow> bool" where
  "contains sub [] = (sub = [])"
| "contains sub (c # cs) = (prefix sub (c # cs) \<or> contains sub cs)"

subsection \<open>The two anchored label patterns\<close>

text \<open>
  Both calls of \<open>re.sub\<close> use a pattern that starts with \<open>^\<close> and is a sequence of
  single-character items, each taken once or under a greedy star. \<open>match_items\<close> is the
  backtracking matcher on such a sequence, at the start of the text: it returns the text
  left after the first match in the engine's order of preference, or \<open>None\<close> when the
  pattern does not match. A starred item first tries to take one more character and
  falls back to taking none.
\<close>

datatype item = One "char \<Rightarrow> bool" | Many "char \<Rightarrow> bool"

fun match_items :: "item list \<Rightarrow> string \<Rightarrow> string option" where
  "match_items [] s = Some s"
| "match_items (One p # its) [] = None"
| "match_items (One p # its) (c # cs) = (if p c then match_items its cs else None)"
| "match_items (Many p # its) [] = match_items its []"
| "match_items (Many p # its) (c # cs) =
     (if p c then
        (case match_items (Many p # its) cs of
           Some r \<Rightarrow> Some r
         | None \<Rightarrow> match_items its (c # cs))
      else match_items its (c # cs))"

text \<open>A literal of the pattern under \<open>re.IGNORECASE\<close>.\<close>

definition lit :: "char \<Rightarrow> item" where
  "lit a = One (\<lambda>c. lower_char c = lower_char a)"

text \<open>
  \<open>re.sub(pattern, '', s)\<close> for a pattern anchored with \<open>^\<close> whose match is never
  empty: the one match at position 0 is deleted, and a text without a match is returned
  as it is.
\<close>

definition re_sub :: "item list \<Rightarrow> string \<Rightarrow> string" where
  "re_sub pat s = (case match_items pat s of None \<Rightarrow> s | Some r \<Rightarrow> r)"

text \<open>
  \<open>r'^step\s*\d+\s*[:\-\.]\s*'\<close>; the greedy \<open>\d+\<close> is one digit followed by a
  starred digit.
\<close>

definition step_pattern :: "item list" where
  "step_pattern = map lit ''step'' @
     [Many py_isspace, One py_isdigit, Many py_isdigit, Many py_isspace, One is_sep,
      Many py_isspace]"

text \<open>\<open>r'^\s*output\s*[:\-\.]*\s*'\<close>\<close>

definition output_pattern :: "item list" where
  "output_pattern = Many py_isspace # map lit ''output'' @
     [Many py_isspace, Many is_sep, Many py_isspace]"

subsection \<open>Escaping and number formatting\<close>

text \<open>\<open>html.escape(s)\<close> with its default \<open>quote=True\<close>.\<close>

definition escape_char :: "char \<Rightarrow> string" where
  "escape_char c =
     (if c = CHR ''&'' then ''&amp;''
      else if c = CHR ''<'' then ''&lt;''
      else if c = CHR ''>'' then ''&gt;''
      else if c = CHR 0x22 then ''&quot;''
      else if c = CHR 0x27 then ''&#x27;''
      else [c])"

definition html_escape :: "string \<Rightarrow> string" where
  "html_escape s = concat (map escape_char s)"

text \<open>\<open>safe_text\<close>: empty for an empty text, else escaped with newlines as line breaks.\<close>

definition safe_text :: "string \<Rightarrow> string" where
  "safe_text t =
     (if t = [] then []
      else concat (map (\<lambda>c. if c = CHR 0x0A then ''<br/>'' else [c]) (html_escape t)))"

text \<open>The decimal numeral of a natural number, as an f-string prints it.\<close>

definition digit_char :: "nat \<Rightarrow> char" where
  "digit_char d = char_of (48 + d)"

function show_nat :: "nat \<Rightarrow> string" where
  "show_nat n = (if n < 10 then [digit_char n] else show_nat (n div 10) @ [digit_char (n mod 10)])"
  by pat_completeness auto
termination
  by (relation "measure (\<lambda>n. n)") auto

declare show_nat.simps [simp del]

section \<open>The algorithm processor\<close>

text \<open>
  One round of the loop over \<open>alg_raw.split('\n')\<close>: \<open>acc\<close> is \<open>processed_lines\<close>
  before the round, the result is \<open>processed_lines\<close> after it.
\<close>

definition clean_line :: "string \<Rightarrow> string" where
  "clean_line line = strip (re_sub step_pattern line)"

definition process_line :: "string list \<Rightarrow> string \<Rightarrow> string list" where
  "process_line acc line0 =
     (let line = strip line0 in
      if line = [] then acc
      else
        let line_clean = clean_line line;
            lower_line = lower line_clean
        in if contains ''start the program'' lower_line \<or> contains ''stop the program'' lower_line
           then acc
           else if line_clean \<noteq> [] \<and> line_clean \<notin> set acc then acc @ [line_clean]
           else acc)"

definition processed_lines :: "string \<Rightarrow> string list" where
  "processed_lines alg_raw = foldl process_line [] (split_nl alg_raw)"

text \<open>
  The loop \<open>for i, line in enumerate(processed_lines): alg_html += ...\<close>, with the
  index and the text built so far passed along.
\<close>

fun steps_loop :: "nat \<Rightarrow> string list \<Rightarrow> string \<Rightarrow> string" where
  "steps_loop i [] acc = acc"
| "steps_loop i (l # ls) acc =
     steps_loop (Suc i) ls (acc @ ''Step '' @ show_nat (i + 2) @ '': '' @ html_escape l @ ''<br/>'')"

definition alg_html :: "string list \<Rightarrow> string" where
  "alg_html ps =
     steps_loop 0 ps ''Step 1: Start the program<br/>''
       @ ''Step '' @ show_nat (length ps + 2) @ '': Stop the program''"

definition normalize :: "string \<Rightarrow> string" where
  "normalize alg_raw = alg_html (processed_lines alg_raw)"

section \<open>Blocks, styles and page geometry\<close>

text \<open>
  The record is the JSON object of the request: a dictionary from field names to texts.
  \<open>get d k dflt\<close> is \<open>data.get(k, dflt)\<close>; \<open>truthy d k\<close> is the test
  \<open>if data.get(k)\<close>, which holds for a field that is present and not empty.
\<close>

type_synonym data = "string \<Rightarrow> string option"

definition get :: "data \<Rightarrow> string \<Rightarrow> string \<Rightarrow> string" where
  "get d k dflt = (case d k of None \<Rightarrow> dflt | Some v \<Rightarrow> v)"

definition truthy :: "data \<Rightarrow> string \<Rightarrow> bool" where
  "truthy d k = (case d k of None \<Rightarrow> False | Some v \<Rightarrow> v \<noteq> [])"

text \<open>The five paragraph styles, by the names the source gives them.\<close>

datatype style = TLeft | TCenter | Heading | Body | TurboC

datatype cell = PCell string style | SCell string

datatype flowable =
    Paragraph string style
  | Spacer real real
  | Table "cell list list" "real list"
  | KeepTogether "flowable list"
  | PushToBottomSpacer "flowable list"

definition inch :: real where
  "inch = 72"

definition A4_width :: real where
  "A4_width = 210 * (inch / 25.4)"


definition margin_x :: real where
  "margin_x = 0.5 * inch"

section \<open>The section builder\<close>

text \<open>
  \<open>story\<close> is the list the source appends to; every section takes the story so far
  and returns it extended. The table's grid and padding commands are not modelled.
\<close>

definition header_section :: "data \<Rightarrow> flowable list \<Rightarrow> flowable list" where
  "header_section d story =
     (let date_str0 = strip (safe_text (get d ''date'' []));
          date_str = (if date_str0 = [] then concat (replicate 10 ''&nbsp;'') else date_str0);
          header_data =
            [[PCell (''Exp.no : '' @ safe_text (get d ''expNo'' [])) TLeft,
              PCell (safe_text (get d ''title'' ''EXPERIMENT'')) TCenter],
             [PCell (''Date &nbsp;&nbsp;&nbsp;: '' @ date_str) TLeft, SCell []]];
          total_available_width = A4_width - (2 * margin_x) - (0.2 * inch);
          col1_width = 1.5 * inch;
          col2_width = total_available_width - col1_width
      in story @ [Table header_data [col1_width, col2_width], Spacer 1 (0.2 * inch)])"

definition aim_section :: "data \<Rightarrow> flowable list \<Rightarrow> flowable list" where
  "aim_section d story =
     (if truthy d ''aim''
      then story @ [Paragraph ''<b>AIM :</b>'' Heading,
                    Paragraph (''&nbsp;&nbsp;&nbsp;&nbsp;&nbsp;'' @ safe_text (get d ''aim'' [])) Body]
      else story)"

definition algorithm_section :: "data \<Rightarrow> flowable list \<Rightarrow> flowable list" where
  "algorithm_section d story =
     (let alg = normalize (get d ''algorithm'' []) in
      if alg \<noteq> []
      then story @ [Paragraph ''<b>ALGORITHM :</b>'' Heading, Paragraph alg Body]
      else story)"

definition program_section :: "data \<Rightarrow> flowable list \<Rightarrow> flowable list" where
  "program_section d story =
     (if truthy d ''program''
      then
        let program_elements =
              [Paragraph ''<b>PROGRAM :</b>'' Heading,
               Paragraph (safe_text (get d ''program'' [])) Body];
            prog_lines = length (split_nl (get d ''program'' []))
        in if prog_lines < 15 then story @ [KeepTogether program_elements]
           else story @ program_elements
      else story)"

definition output_section :: "data \<Rightarrow> flowable list \<Rightarrow> flowable list" where
  "output_section d story =
     (if truthy d ''output''
      then
        let out_raw = strip (get d ''output'' []);
            out_clean = re_sub output_pattern out_raw
        in story @ [Paragraph ''<b>OUTPUT :</b>'' Heading, Paragraph (safe_text out_clean) TurboC]
      else story)"

definition result_section :: "data \<Rightarrow> flowable list \<Rightarrow> flowable list" where
  "result_section d story =
     (if truthy d ''result''
      then
        let result_block =
              [Paragraph ''<b>RESULT :</b>'' Heading,
               Paragraph (''&nbsp;&nbsp;&nbsp;&nbsp;&nbsp;'' @ safe_text (get d ''result'' [])) Body]
        in story @ [PushToBottomSpacer result_block, KeepTogether result_block]
      else story)"

definition build_story :: "data \<Rightarrow> flowable list" where
  "build_story d =
     result_section d (output_section d (program_section d
       (algorithm_section d (aim_section d (header_section d [])))))"

section \<open>The bottom-pin spacer\<close>



section \<open>The page decorator and the assembler\<close>









section \<open>Notions used in the statements\<close>

text \<open>
  What the step pattern does, written without the matcher: the four letters, optional
  whitespace, at least one digit, optional whitespace, exactly one separator, optional
  whitespace.
\<close>

definition step_direct :: "string \<Rightarrow> string option" where
  "step_direct s =
     (let r1 = dropWhile py_isspace (drop 4 s) in
      if lower (take 4 s) = ''step'' \<and> r1 \<noteq> [] \<and> py_isdigit (hd r1) then
        let r3 = dropWhile py_isspace (dropWhile py_isdigit (tl r1)) in
        if r3 \<noteq> [] \<and> is_sep (hd r3) then Some (dropWhile py_isspace (tl r3)) else None
      else None)"

text \<open>A cleaned line that the processor keeps: not empty, and free of both phrases.\<close>

definition usable :: "string \<Rightarrow> bool" where
  "usable l \<longleftrightarrow> l \<noteq> [] \<and> \<not> contains ''start the program'' (lower l)
     \<and> \<not> contains ''stop the program'' (lower l)"

text \<open>One line of the formatted text: \<open>Step k: t\<close>.\<close>

definition step_line :: "nat \<Rightarrow> string \<Rightarrow> string" where
  "step_line k t = ''Step '' @ show_nat k @ '': '' @ t"

text \<open>The formatted text read back as lines: the pieces between the \<open><br/>\<close> marks.\<close>

fun split_br :: "string \<Rightarrow> string list" where
  "split_br [] = [[]]"
| "split_br (c # cs) =
     (if prefix ''<br/>'' (c # cs) then [] # split_br (drop 4 cs)
      else (case split_br cs of
              l # ls \<Rightarrow> (c # l) # ls
            | [] \<Rightarrow> [[c]]))"

text \<open>\<open>'\n'.join(lines)\<close>\<close>

fun join_nl :: "string list \<Rightarrow> string" where
  "join_nl [] = []"
| "join_nl [l] = l"
| "join_nl (l # m # ls) = l @ CHR 0x0A # join_nl (m # ls)"

text \<open>The formatted text without its first and last line, as a multi-line text again.\<close>

definition middle_text :: "string \<Rightarrow> string" where
  "middle_text out = join_nl (butlast (tl (split_br out)))"

section \<open>The matcher on the step pattern\<close>

lemma space_not_digit: "py_isspace c \<Longrightarrow> \<not> py_isdigit c"
  by (auto simp: py_isspace_def py_isdigit_def)

lemma space_not_sep: "py_isspace c \<Longrightarrow> \<not> is_sep c"
  by (auto simp: py_isspace_def is_sep_def)

lemma digit_not_sep: "py_isdigit c \<Longrightarrow> \<not> is_sep c"
  by (auto simp: py_isdigit_def is_sep_def)

lemma match_lits:
  "match_items (map lit w @ its) s =
     (if lower (take (length w) s) = lower w then match_items its (drop (length w) s) else None)"
proof (induction w arbitrary: s)
  case Nil
  then show ?case by (simp add: lower_def)
next
  case (Cons a w)
  show ?case
  proof (cases s)
    case Nil
    then show ?thesis by (simp add: lit_def lower_def)
  next
    case (Cons c cs)
    then show ?thesis using Cons.IH [of cs] by (simp add: lit_def lower_def)
  qed
qed

lemma match_many_last: "match_items [Many p] s = Some (dropWhile p s)"
  by (induction s) auto

lemma match_many_greedy:
  "match_items its (dropWhile p s) = Some r \<Longrightarrow> match_items (Many p # its) s = Some r"
  by (induction s) auto

lemma match_many_det:
  assumes "\<And>c r. p c \<Longrightarrow> match_items its (c # r) = None"
  shows "match_items (Many p # its) s = match_items its (dropWhile p s)"
  using assms by (induction s) (auto split: option.splits)

lemma match_one:
  "match_items (One p # its) t = (if t \<noteq> [] \<and> p (hd t) then match_items its (tl t) else None)"
  by (cases t) auto

lemma lower_step: "lower ''step'' = ''step''"
  by code_simp

lemma match_step_tail:
  "match_items [Many py_isspace, One py_isdigit, Many py_isdigit, Many py_isspace, One is_sep,
      Many py_isspace] r =
   (let r1 = dropWhile py_isspace r in
      if r1 \<noteq> [] \<and> py_isdigit (hd r1) then
        let r3 = dropWhile py_isspace (dropWhile py_isdigit (tl r1)) in
        if r3 \<noteq> [] \<and> is_sep (hd r3) then Some (dropWhile py_isspace (tl r3)) else None
      else None)"
proof -
  have a: "\<And>c r. py_isspace c \<Longrightarrow> match_items [One is_sep, Many py_isspace] (c # r) = None"
    by (simp add: space_not_sep)
  have b: "\<And>c r. py_isdigit c \<Longrightarrow>
      match_items [Many py_isspace, One is_sep, Many py_isspace] (c # r) = None"
    by (auto simp: digit_not_sep dest: space_not_digit)
  have c: "\<And>c r. py_isspace c \<Longrightarrow>
      match_items [One py_isdigit, Many py_isdigit, Many py_isspace, One is_sep, Many py_isspace]
        (c # r) = None"
    by (simp add: space_not_digit)
  show ?thesis
    by (simp only: match_many_det [OF c] match_one match_many_det [OF b] match_many_det [OF a]
        match_many_last Let_def)
qed

lemma match_step_pattern: "match_items step_pattern s = step_direct s"
  unfolding step_pattern_def step_direct_def
proof -
  have len: "length ''step'' = 4" by simp
  show "match_items
     (map lit ''step'' @
      [Many py_isspace, One py_isdigit, Many py_isdigit, Many py_isspace, One is_sep,
       Many py_isspace]) s =
    (let r1 = dropWhile py_isspace (drop 4 s)
     in if lower (take 4 s) = ''step'' \<and> r1 \<noteq> [] \<and> py_isdigit (hd r1)
        then let r3 = dropWhile py_isspace (dropWhile py_isdigit (tl r1))
             in if r3 \<noteq> [] \<and> is_sep (hd r3) then Some (dropWhile py_isspace (tl r3)) else None
        else None)"
    unfolding match_lits len lower_step match_step_tail Let_def
    by (cases "lower (take 4 s) = ''step''") (simp_all only: if_True if_False simp_thms)
qed

section \<open>The algorithm processor: what the loop keeps\<close>

lemma clean_line_Nil: "clean_line [] = []"
  by (simp add: clean_line_def re_sub_def match_step_pattern step_direct_def strip_def lower_def)

lemma process_line_eq:
  "process_line acc line0 =
     (if usable (clean_line (strip line0)) \<and> clean_line (strip line0) \<notin> set acc
      then acc @ [clean_line (strip line0)] else acc)"
  by (auto simp: process_line_def Let_def usable_def clean_line_Nil)

lemma foldl_process_line_distinct:
  "distinct acc \<Longrightarrow> distinct (foldl process_line acc ls)"
  by (induction ls arbitrary: acc) (simp_all add: process_line_eq)

lemma foldl_process_line_elems:
  "l \<in> set (foldl process_line acc ls) \<Longrightarrow>
     l \<in> set acc \<or> (\<exists>line\<in>set ls. l = clean_line (strip line) \<and> usable l)"
proof (induction ls arbitrary: acc)
  case Nil
  then show ?case by simp
next
  case (Cons a ls)
  from Cons.IH [of "process_line acc a"] Cons.prems
  show ?case by (auto simp: process_line_eq split: if_splits)
qed

lemma processed_lines_elems:
  "l \<in> set (processed_lines x) \<Longrightarrow> \<exists>line\<in>set (split_nl x). l = clean_line (strip line) \<and> usable l"
  using foldl_process_line_elems [of l "[]" "split_nl x"] by (simp add: processed_lines_def)

lemma processed_lines_distinct: "distinct (processed_lines x)"
  by (simp add: processed_lines_def foldl_process_line_distinct)

lemma processed_lines_usable: "l \<in> set (processed_lines x) \<Longrightarrow> usable l"
  using processed_lines_elems by blast

section \<open>The formatted text, read back line by line\<close>

lemma digit_char_digit: "d < 10 \<Longrightarrow> py_isdigit (digit_char d)"
proof -
  have "\<forall>d\<in>set [0..<10]. py_isdigit (digit_char d)" by code_simp
  then show "d < 10 \<Longrightarrow> py_isdigit (digit_char d)" by simp
qed

lemma show_nat_digits: "c \<in> set (show_nat n) \<Longrightarrow> py_isdigit c"
proof (induction n rule: show_nat.induct)
  case (1 n)
  show ?case
  proof (cases "n < 10")
    case True
    with "1.prems" show ?thesis by (simp add: show_nat.simps [of n] digit_char_digit)
  next
    case False
    with "1.prems" "1.IH" show ?thesis
      by (auto simp: show_nat.simps [of n] digit_char_digit)
  qed
qed

lemma show_nat_nonempty: "show_nat n \<noteq> []"
  by (subst show_nat.simps) simp

lemma escape_char_no_lt: "CHR ''<'' \<notin> set (escape_char c)"
  by (simp add: escape_char_def)

lemma html_escape_no_lt: "CHR ''<'' \<notin> set (html_escape s)"
  by (induction s) (simp_all add: html_escape_def escape_char_no_lt)

lemma step_line_no_lt: "CHR ''<'' \<notin> set t \<Longrightarrow> CHR ''<'' \<notin> set (step_line k t)"
  by (auto simp: step_line_def py_isdigit_def dest: show_nat_digits)

lemma split_br_line:
  "CHR ''<'' \<notin> set l \<Longrightarrow> split_br (l @ ''<br/>'' @ rest) = l # split_br rest"
  by (induction l) auto

lemma split_br_last: "CHR ''<'' \<notin> set l \<Longrightarrow> split_br l = [l]"
  by (induction l) auto

lemma split_br_lines:
  "\<forall>l\<in>set ls. CHR ''<'' \<notin> set l \<Longrightarrow> CHR ''<'' \<notin> set z \<Longrightarrow>
     split_br (concat (map (\<lambda>l. l @ ''<br/>'') ls) @ z) = ls @ [z]"
proof (induction ls)
  case Nil
  then show ?case by (simp add: split_br_last)
next
  case (Cons a ls)
  then show ?case using split_br_line [of a "concat (map (\<lambda>l. l @ ''<br/>'') ls) @ z"]
    by simp
qed

lemma steps_loop_eq:
  "steps_loop i ls acc =
     acc @ concat (map (\<lambda>l. l @ ''<br/>'')
       (map (\<lambda>j. step_line (i + j + 2) (html_escape (ls ! j))) [0..<length ls]))"
proof (induction ls arbitrary: i acc)
  case Nil
  then show ?case by simp
next
  case (Cons a ls)
  show ?case
    by (simp add: Cons.IH map_upt_Suc step_line_def del: upt_Suc)
qed


lemma alg_html_eq:
  "alg_html ps =
     concat (map (\<lambda>l. l @ ''<br/>'')
       (''Step 1: Start the program'' #
         map (\<lambda>j. step_line (j + 2) (html_escape (ps ! j))) [0..<length ps]))
     @ step_line (length ps + 2) ''Stop the program''"
  by (simp add: alg_html_def steps_loop_eq step_line_def)

lemma split_br_alg_html:
  "split_br (alg_html ps) =
     ''Step 1: Start the program'' #
       map (\<lambda>j. step_line (j + 2) (html_escape (ps ! j))) [0..<length ps]
     @ [step_line (length ps + 2) ''Stop the program'']"
proof -
  have a: "\<forall>l\<in>set (''Step 1: Start the program'' #
         map (\<lambda>j. step_line (j + 2) (html_escape (ps ! j))) [0..<length ps]). CHR ''<'' \<notin> set l"
    by (auto simp: step_line_no_lt html_escape_no_lt)
  have b: "CHR ''<'' \<notin> set (step_line (length ps + 2) ''Stop the program'')"
    by (rule step_line_no_lt) simp
  show ?thesis
    unfolding alg_html_eq using split_br_lines [OF a b] by simp
qed

text \<open>
  C2. For every algorithm text the formatted text starts with \<open>Step 1: Start the program\<close>
  and ends with \<open>Step N: Stop the program\<close>, where \<open>N\<close> is the number of kept steps
  plus 2 (so at least 2). Read back line by line, it is the start line, then the kept steps
  in order, numbered 2, 3, ... without a gap, then the stop line. No cleaned text occurs
  twice among the kept steps, and none contains \<open>start the program\<close> or
  \<open>stop the program\<close> once lowered.
\<close>

theorem normalize_shape:
  "prefix ''Step 1: Start the program'' (normalize x)
   \<and> suffix (''Step '' @ show_nat (length (processed_lines x) + 2) @ '': Stop the program'')
        (normalize x)
   \<and> 2 \<le> length (processed_lines x) + 2
   \<and> split_br (normalize x) =
        ''Step 1: Start the program'' #
          map (\<lambda>j. ''Step '' @ show_nat (j + 2) @ '': '' @ html_escape (processed_lines x ! j))
            [0..<length (processed_lines x)]
        @ [''Step '' @ show_nat (length (processed_lines x) + 2) @ '': Stop the program'']
   \<and> distinct (processed_lines x)
   \<and> (\<forall>l\<in>set (processed_lines x).
         \<not> contains ''start the program'' (lower l) \<and> \<not> contains ''stop the program'' (lower l))"
proof -
  have "prefix ''Step 1: Start the program'' (normalize x)"
    by (simp add: normalize_def alg_html_eq)
  moreover have "suffix (''Step '' @ show_nat (length (processed_lines x) + 2) @ '': Stop the program'')
        (normalize x)"
    unfolding normalize_def alg_html_def by (rule suffix_appendI) simp
  moreover have "split_br (normalize x) =
        ''Step 1: Start the program'' #
          map (\<lambda>j. ''Step '' @ show_nat (j + 2) @ '': '' @ html_escape (processed_lines x ! j))
            [0..<length (processed_lines x)]
        @ [''Step '' @ show_nat (length (processed_lines x) + 2) @ '': Stop the program'']"
    using split_br_alg_html [of "processed_lines x"] by (simp add: normalize_def step_line_def)
  moreover have "\<forall>l\<in>set (processed_lines x).
         \<not> contains ''start the program'' (lower l) \<and> \<not> contains ''stop the program'' (lower l)"
    using processed_lines_usable [of _ x] by (auto simp: usable_def)
  ultimately show ?thesis
    using processed_lines_distinct [of x] by simp
qed

theorem normalize_shape_witness:
  "split_br (normalize (''Step 1: Read a and b'' @ [CHR 0x0A] @ ''step 2 - Start the Program''
      @ [CHR 0x0A] @ ''Read a and b'' @ [CHR 0x0A] @ ''Step 2: Print sum''))
     = [''Step 1: Start the program'', ''Step 2: Read a and b'', ''Step 3: Print sum'',
        ''Step 4: Stop the program'']
   \<and> distinct [''Read a and b'', ''Print sum'']
   \<and> \<not> contains ''start the program'' (lower ''Read a and b'')
   \<and> \<not> contains ''stop the program'' (lower ''Print sum'')"
proof -
  let ?x = "''Step 1: Read a and b'' @ [CHR 0x0A] @ ''step 2 - Start the Program''
      @ [CHR 0x0A] @ ''Read a and b'' @ [CHR 0x0A] @ ''Step 2: Print sum''"
  have "split_br (normalize ?x) =
        ''Step 1: Start the program'' #
          map (\<lambda>j. ''Step '' @ show_nat (j + 2) @ '': '' @ html_escape (processed_lines ?x ! j))
            [0..<length (processed_lines ?x)]
        @ [''Step '' @ show_nat (length (processed_lines ?x) + 2) @ '': Stop the program'']"
    using normalize_shape [of ?x] by blast
  also have "\<dots> = [''Step 1: Start the program'', ''Step 2: Read a and b'', ''Step 3: Print sum'',
        ''Step 4: Stop the program'']"
    by code_simp
  finally have a: "split_br (normalize ?x) = [''Step 1: Start the program'',
      ''Step 2: Read a and b'', ''Step 3: Print sum'', ''Step 4: Stop the program'']" .
  have b: "\<not> contains ''start the program'' (lower ''Read a and b'')"
    "\<not> contains ''stop the program'' (lower ''Print sum'')"
    by code_simp+
  from a b show ?thesis by simp
qed

text \<open>
  C10. A line whose cleaned text is empty once its step label is stripped leaves the list
  of steps as it was, and no step of the result has an empty cleaned text.
\<close>

theorem empty_clean_line_adds_no_step:
  "(clean_line (strip line) = [] \<longrightarrow> process_line acc line = acc)
   \<and> [] \<notin> set (processed_lines alg_raw)"
  using processed_lines_usable [of "[]" alg_raw]
  by (auto simp: process_line_eq usable_def)

theorem empty_clean_line_adds_no_step_witness:
  "clean_line (strip ''Step 3:'') = [] \<and> process_line [''Read a''] ''Step 3:'' = [''Read a'']
   \<and> processed_lines ''Step 3:'' = []"
proof -
  have a: "clean_line (strip ''Step 3:'') = []" by code_simp
  have b: "processed_lines ''Step 3:'' = []" by code_simp
  from a b empty_clean_line_adds_no_step [of "''Step 3:''" "[''Read a'']"]
  show ?thesis by simp
qed

section \<open>The step label and its separator\<close>

lemma dropWhile_all:
  "\<forall>c\<in>set xs. P c \<Longrightarrow> ys = [] \<or> \<not> P (hd ys) \<Longrightarrow> dropWhile P (xs @ ys) = ys"
proof (induction xs)
  case Nil
  then show ?case by (cases ys) auto
next
  case (Cons a xs)
  then show ?case by simp
qed

lemma strip_dropWhile: "strip (dropWhile py_isspace s) = strip s"
  by (simp add: strip_def)

lemma lower_length_4: "lower lbl = ''step'' \<Longrightarrow> length lbl = 4"
proof -
  assume "lower lbl = ''step''"
  then have "length (lower lbl) = 4" by simp
  then show ?thesis by (simp add: lower_def)
qed

lemma step_direct_labelled:
  assumes lbl: "lower lbl = ''step''"
    and ws1: "\<forall>c\<in>set ws1. py_isspace c"
    and ds: "ds \<noteq> []" "\<forall>c\<in>set ds. py_isdigit c"
    and ws2: "\<forall>c\<in>set ws2. py_isspace c"
    and t: "t = [] \<or> (\<not> py_isspace (hd t) \<and> \<not> py_isdigit (hd t))"
  shows "step_direct (lbl @ ws1 @ ds @ ws2 @ t) =
     (if t \<noteq> [] \<and> is_sep (hd t) then Some (dropWhile py_isspace (tl t)) else None)"
proof -
  from ds obtain d ds' where dd: "ds = d # ds'" by (cases ds) auto
  with ds have d: "py_isdigit d" and ds': "\<forall>c\<in>set ds'. py_isdigit c" by auto
  have len: "length lbl = 4" using lbl by (rule lower_length_4)
  have tk: "take 4 (lbl @ ws1 @ ds @ ws2 @ t) = lbl" "drop 4 (lbl @ ws1 @ ds @ ws2 @ t) = ws1 @ ds @ ws2 @ t"
    using len by simp_all
  have r1: "dropWhile py_isspace (ws1 @ ds @ ws2 @ t) = d # ds' @ ws2 @ t"
    using dropWhile_all [OF ws1, of "ds @ ws2 @ t"] d space_not_digit by (auto simp: dd)
  have w2: "ws2 @ t = [] \<or> \<not> py_isdigit (hd (ws2 @ t))"
    using ws2 t space_not_digit by (cases ws2) auto
  have r2: "dropWhile py_isdigit (ds' @ ws2 @ t) = ws2 @ t"
    using dropWhile_all [OF ds' w2] .
  have r3: "dropWhile py_isspace (ws2 @ t) = t"
    using dropWhile_all [OF ws2, of t] t by auto
  show ?thesis
    unfolding step_direct_def tk r1 Let_def using lbl d by (simp add: r2 r3)
qed

lemma clean_line_labelled:
  assumes "lower lbl = ''step''"
    and "\<forall>c\<in>set ws1. py_isspace c"
    and "ds \<noteq> []" "\<forall>c\<in>set ds. py_isdigit c"
    and "\<forall>c\<in>set ws2. py_isspace c"
    and "t = [] \<or> (\<not> py_isspace (hd t) \<and> \<not> py_isdigit (hd t))"
  shows "clean_line (lbl @ ws1 @ ds @ ws2 @ t) =
     (if t \<noteq> [] \<and> is_sep (hd t) then strip (tl t) else strip (lbl @ ws1 @ ds @ ws2 @ t))"
  using step_direct_labelled [OF assms]
  by (simp add: clean_line_def re_sub_def match_step_pattern strip_dropWhile)

text \<open>
  C4, as the code has it. On a line that starts with the letters \<open>step\<close> in any case,
  optional whitespace, at least one digit and optional whitespace: when the next character
  is one of \<open>:\<close>, \<open>-\<close>, \<open>.\<close>, the label up to and including that one separator is
  removed and the rest is trimmed; when the next character is none of them (and no further
  whitespace or digit), or the line ends there, nothing is removed and the line is only
  trimmed.
\<close>

theorem step_label_needs_a_separator:
  assumes "lower lbl = ''step''"
    and "\<forall>c\<in>set ws1. py_isspace c"
    and "ds \<noteq> []" and "\<forall>c\<in>set ds. py_isdigit c"
    and "\<forall>c\<in>set ws2. py_isspace c"
  shows "(is_sep c \<longrightarrow> clean_line (lbl @ ws1 @ ds @ ws2 @ c # rest) = strip rest)
    \<and> (\<not> is_sep c \<and> \<not> py_isspace c \<and> \<not> py_isdigit c \<longrightarrow>
         clean_line (lbl @ ws1 @ ds @ ws2 @ c # rest) = strip (lbl @ ws1 @ ds @ ws2 @ c # rest))
    \<and> clean_line (lbl @ ws1 @ ds @ ws2) = strip (lbl @ ws1 @ ds @ ws2)"
proof -
  have a: "clean_line (lbl @ ws1 @ ds @ ws2 @ c # rest) = strip rest" if "is_sep c"
    using clean_line_labelled [OF assms, of "c # rest"] that space_not_sep digit_not_sep
    by auto
  have b: "clean_line (lbl @ ws1 @ ds @ ws2 @ c # rest) = strip (lbl @ ws1 @ ds @ ws2 @ c # rest)"
    if "\<not> is_sep c \<and> \<not> py_isspace c \<and> \<not> py_isdigit c"
    using clean_line_labelled [OF assms, of "c # rest"] that by auto
  have c: "clean_line (lbl @ ws1 @ ds @ ws2) = strip (lbl @ ws1 @ ds @ ws2)"
    using clean_line_labelled [OF assms, of "[]"] by simp
  from a b c show ?thesis by blast
qed

text \<open>
  C4, as stated, fails: the separator is not optional. The line \<open>Step 2 Read a and b\<close>
  keeps its label and becomes the step \<open>Step 2: Step 2 Read a and b\<close>.
\<close>

theorem step_label_without_separator_stays:
  "clean_line (strip ''Step 2 Read a and b'') = ''Step 2 Read a and b''
   \<and> clean_line (strip ''Step 2 Read a and b'') \<noteq> ''Read a and b''
   \<and> processed_lines ''Step 2 Read a and b'' = [''Step 2 Read a and b'']
   \<and> normalize ''Step 2 Read a and b'' =
       ''Step 1: Start the program<br/>Step 2: Step 2 Read a and b<br/>Step 3: Stop the program''"
  by code_simp

theorem step_label_needs_a_separator_witness:
  "clean_line ''STEP 12 - Read a and b'' = ''Read a and b''
   \<and> clean_line ''Step 2 Read a and b'' = strip ''Step 2 Read a and b''
   \<and> clean_line ''step 7'' = strip ''step 7''"
proof -
  have l: "lower ''STEP'' = ''step''" "lower ''Step'' = ''step''" "lower ''step'' = ''step''"
    by code_simp+
  have w: "\<forall>c\<in>set '' ''. py_isspace c" "\<forall>c\<in>set ''''. py_isspace c" by code_simp+
  have d: "''12'' \<noteq> []" "\<forall>c\<in>set ''12''. py_isdigit c" "''2'' \<noteq> []" "\<forall>c\<in>set ''2''. py_isdigit c"
    "''7'' \<noteq> []" "\<forall>c\<in>set ''7''. py_isdigit c"
    by code_simp+
  have s: "is_sep (CHR ''-'')" "\<not> is_sep (CHR ''R'') \<and> \<not> py_isspace (CHR ''R'') \<and> \<not> py_isdigit (CHR ''R'')"
    "strip '' Read a and b'' = ''Read a and b''"
    by code_simp+
  from step_label_needs_a_separator [OF l(1) w(1) d(1,2) w(1), of "CHR ''-''" "'' Read a and b''"] s
  have a: "clean_line ''STEP 12 - Read a and b'' = ''Read a and b''" by simp
  from step_label_needs_a_separator [OF l(2) w(1) d(3,4) w(1), of "CHR ''R''" "''ead a and b''"] s
  have b: "clean_line ''Step 2 Read a and b'' = strip ''Step 2 Read a and b''" by simp
  from step_label_needs_a_separator [OF l(3) w(1) d(5,6) w(2)]
  have c: "clean_line ''step 7'' = strip ''step 7''" by simp
  from a b c show ?thesis by blast
qed

section \<open>The section builder: which blocks enter the story\<close>

lemma normalize_nonempty: "normalize x \<noteq> []"
  by (simp add: normalize_def alg_html_def)

lemma aim_section_app: "aim_section d st = st @ aim_section d []"
  by (simp add: aim_section_def)

lemma algorithm_section_app: "algorithm_section d st = st @ algorithm_section d []"
  by (simp add: algorithm_section_def Let_def)

lemma program_section_app: "program_section d st = st @ program_section d []"
  by (simp add: program_section_def Let_def)

lemma output_section_app: "output_section d st = st @ output_section d []"
  by (simp add: output_section_def Let_def)

lemma result_section_app: "result_section d st = st @ result_section d []"
  by (simp add: result_section_def Let_def)

lemma build_story_parts:
  "build_story d = header_section d [] @ aim_section d [] @ algorithm_section d []
     @ program_section d [] @ output_section d [] @ result_section d []"
  unfolding build_story_def
  by (subst result_section_app, subst output_section_app, subst program_section_app,
      subst algorithm_section_app, subst aim_section_app) simp

lemma algorithm_section_eq:
  "algorithm_section d [] =
     [Paragraph ''<b>ALGORITHM :</b>'' Heading, Paragraph (normalize (get d ''algorithm'' [])) Body]"
  by (simp add: algorithm_section_def Let_def normalize_nonempty)

lemma processed_lines_Nil: "processed_lines [] = []"
  by code_simp

lemma alg_html_Nil: "alg_html [] = ''Step 1: Start the program<br/>Step 2: Stop the program''"
  by code_simp

text \<open>
  C3. The story of every record contains the algorithm heading followed by the body block
  with the normalized text: the test in front of the section never fails, because the
  normalized text is never empty. When the algorithm field is empty or absent, or no
  usable line is left, the normalized text is \<open>Step 1: Start the program\<close>, a line
  break, \<open>Step 2: Stop the program\<close>.
\<close>

theorem algorithm_section_always_present:
  "(\<exists>pre post. build_story d =
      pre @ [Paragraph ''<b>ALGORITHM :</b>'' Heading,
             Paragraph (normalize (get d ''algorithm'' [])) Body] @ post)
   \<and> (get d ''algorithm'' [] = [] \<or> processed_lines (get d ''algorithm'' []) = []
        \<longrightarrow> normalize (get d ''algorithm'' []) =
              ''Step 1: Start the program<br/>Step 2: Stop the program'')"
proof -
  have "build_story d = (header_section d [] @ aim_section d []) @
      [Paragraph ''<b>ALGORITHM :</b>'' Heading, Paragraph (normalize (get d ''algorithm'' [])) Body]
      @ (program_section d [] @ output_section d [] @ result_section d [])"
    by (simp add: build_story_parts algorithm_section_eq)
  then have "\<exists>pre post. build_story d =
      pre @ [Paragraph ''<b>ALGORITHM :</b>'' Heading,
             Paragraph (normalize (get d ''algorithm'' [])) Body] @ post"
    by blast
  moreover have "get d ''algorithm'' [] = [] \<or> processed_lines (get d ''algorithm'' []) = []
        \<longrightarrow> normalize (get d ''algorithm'' []) =
              ''Step 1: Start the program<br/>Step 2: Stop the program''"
    by (auto simp: normalize_def processed_lines_Nil alg_html_Nil)
  ultimately show ?thesis by blast
qed

theorem algorithm_section_always_present_witness:
  "normalize (get (Map.empty(''algorithm'' \<mapsto> ''Step 1: Start the program'')) ''algorithm'' [])
     = ''Step 1: Start the program<br/>Step 2: Stop the program''
   \<and> normalize (get Map.empty ''algorithm'' []) = ''Step 1: Start the program<br/>Step 2: Stop the program''"
proof -
  have a: "processed_lines (get (Map.empty(''algorithm'' \<mapsto> ''Step 1: Start the program'')) ''algorithm'' []) = []"
    by code_simp
  have b: "get Map.empty ''algorithm'' [] = []"
    by (simp add: get_def)
  from a b
    algorithm_section_always_present [of "Map.empty(''algorithm'' \<mapsto> ''Step 1: Start the program'')"]
    algorithm_section_always_present [of Map.empty]
  show ?thesis by blast
qed


section \<open>Program and output sections\<close>

lemma length_split_nl: "length (split_nl s) = length (filter (\<lambda>c. c = CHR 0x0A) s) + 1"
  by (induction s) (auto split: list.splits)

lemma space_lower_not_o: "py_isspace c \<Longrightarrow> lower_char c \<noteq> CHR ''o''"
proof -
  have "\<forall>c\<in>set [CHR 0x09, CHR 0x0A, CHR 0x0B, CHR 0x0C, CHR 0x0D,
     CHR 0x1C, CHR 0x1D, CHR 0x1E, CHR 0x1F, CHR 0x20, CHR 0x85, CHR 0xA0]. lower_char c \<noteq> CHR ''o''"
    by code_simp
  then show "py_isspace c \<Longrightarrow> lower_char c \<noteq> CHR ''o''"
    unfolding py_isspace_def by blast
qed

lemma lower_output: "lower ''output'' = ''output''"
  by code_simp

lemma match_output_tail:
  "match_items [Many py_isspace, Many is_sep, Many py_isspace] t =
     Some (dropWhile py_isspace (dropWhile is_sep (dropWhile py_isspace t)))"
  by (rule match_many_greedy, rule match_many_greedy, rule match_many_last)

lemma match_output_pattern:
  "match_items output_pattern s =
     (if lower (take 6 (dropWhile py_isspace s)) = ''output''
      then Some (dropWhile py_isspace (dropWhile is_sep (dropWhile py_isspace
             (drop 6 (dropWhile py_isspace s)))))
      else None)"
proof -
  have len: "length ''output'' = 6" by simp
  have lab: "match_items (map lit ''output'' @ [Many py_isspace, Many is_sep, Many py_isspace]) t =
      (if lower (take 6 t) = ''output''
       then Some (dropWhile py_isspace (dropWhile is_sep (dropWhile py_isspace (drop 6 t))))
       else None)" for t
    unfolding match_lits len lower_output match_output_tail ..
  have "match_items (map lit ''output'' @ [Many py_isspace, Many is_sep, Many py_isspace]) (c # r)
      = None" if "py_isspace c" for c r
    using space_lower_not_o [OF that] unfolding lab by (simp add: lower_def)
  then show ?thesis
    unfolding output_pattern_def by (simp only: match_many_det lab)
qed

lemma re_sub_output_label:
  assumes "lower lbl = ''output''"
  shows "re_sub output_pattern (lbl @ rest) =
     dropWhile py_isspace (dropWhile is_sep (dropWhile py_isspace rest))"
proof -
  from assms have "length (lower lbl) = 6" by simp
  then have len: "length lbl = 6" by (simp add: lower_def)
  then obtain c cs where lbl: "lbl = c # cs" by (cases lbl) auto
  with assms have "lower_char c = CHR ''o''" by (simp add: lower_def)
  then have "\<not> py_isspace c" using space_lower_not_o by blast
  then have "dropWhile py_isspace (lbl @ rest) = lbl @ rest" by (simp add: lbl)
  then show ?thesis
    using assms len by (simp add: re_sub_def match_output_pattern)
qed


lemma truthy_Some: "d k = Some v \<Longrightarrow> truthy d k = (v \<noteq> [])"
  by (simp add: truthy_def)

lemma get_Some: "d k = Some v \<Longrightarrow> get d k dflt = v"
  by (simp add: get_def)

lemma set_build_story:
  "set (build_story d) = set (header_section d []) \<union> set (aim_section d [])
     \<union> set (algorithm_section d []) \<union> set (program_section d [])
     \<union> set (output_section d []) \<union> set (result_section d [])"
  by (simp add: build_story_parts Un_assoc)

text \<open>
  C6. For a record with a non-empty program field: the line count is the number of
  newlines plus one; with fewer than 15 lines the heading and the body enter the story
  inside one \<open>KeepTogether\<close> block (and the heading is no block of its own); with 15
  lines or more they enter as two blocks, and no \<open>KeepTogether\<close> holds them.
\<close>

theorem program_kept_together_below_15_lines:
  assumes "d ''program'' = Some p" and "p \<noteq> []"
  shows "length (split_nl p) = length (filter (\<lambda>c. c = CHR 0x0A) p) + 1
    \<and> (length (split_nl p) < 15 \<longrightarrow>
         (\<exists>pre post. build_story d = pre @
            [KeepTogether [Paragraph ''<b>PROGRAM :</b>'' Heading, Paragraph (safe_text p) Body]] @ post)
         \<and> Paragraph ''<b>PROGRAM :</b>'' Heading \<notin> set (build_story d))
    \<and> (\<not> length (split_nl p) < 15 \<longrightarrow>
         (\<exists>pre post. build_story d = pre @
            [Paragraph ''<b>PROGRAM :</b>'' Heading, Paragraph (safe_text p) Body] @ post)
         \<and> KeepTogether [Paragraph ''<b>PROGRAM :</b>'' Heading, Paragraph (safe_text p) Body]
             \<notin> set (build_story d))"
proof -
  have pg: "truthy d ''program'' = (p \<noteq> [])" "get d ''program'' [] = p"
    using assms(1) by (simp_all add: truthy_def get_def)
  have short: "program_section d [] =
      [KeepTogether [Paragraph ''<b>PROGRAM :</b>'' Heading, Paragraph (safe_text p) Body]]"
    if "length (split_nl p) < 15"
    using that assms(2) by (simp add: program_section_def pg)
  have long: "program_section d [] =
      [Paragraph ''<b>PROGRAM :</b>'' Heading, Paragraph (safe_text p) Body]"
    if "\<not> length (split_nl p) < 15"
    using that assms(2) by (simp add: program_section_def pg)
  have others_h: "Paragraph ''<b>PROGRAM :</b>'' Heading \<notin> set (header_section d []) \<union>
      set (aim_section d []) \<union> set (algorithm_section d []) \<union> set (output_section d [])
      \<union> set (result_section d [])"
    by (simp add: header_section_def aim_section_def algorithm_section_eq output_section_def
        result_section_def Let_def)
  have others_k: "KeepTogether [Paragraph ''<b>PROGRAM :</b>'' Heading, Paragraph (safe_text p) Body]
      \<notin> set (header_section d []) \<union>
      set (aim_section d []) \<union> set (algorithm_section d []) \<union> set (output_section d [])
      \<union> set (result_section d [])"
    by (simp add: header_section_def aim_section_def algorithm_section_eq output_section_def
        result_section_def Let_def)
  have parts: "build_story d = (header_section d [] @ aim_section d [] @ algorithm_section d [])
     @ program_section d [] @ (output_section d [] @ result_section d [])"
    by (simp add: build_story_parts)
  have a: "(\<exists>pre post. build_story d = pre @
            [KeepTogether [Paragraph ''<b>PROGRAM :</b>'' Heading, Paragraph (safe_text p) Body]] @ post)
         \<and> Paragraph ''<b>PROGRAM :</b>'' Heading \<notin> set (build_story d)"
    if lt: "length (split_nl p) < 15"
  proof
    show "\<exists>pre post. build_story d = pre @
            [KeepTogether [Paragraph ''<b>PROGRAM :</b>'' Heading, Paragraph (safe_text p) Body]] @ post"
      using parts unfolding short [OF lt] by blast
    show "Paragraph ''<b>PROGRAM :</b>'' Heading \<notin> set (build_story d)"
      using others_h unfolding set_build_story short [OF lt] by simp
  qed
  have b: "(\<exists>pre post. build_story d = pre @
            [Paragraph ''<b>PROGRAM :</b>'' Heading, Paragraph (safe_text p) Body] @ post)
         \<and> KeepTogether [Paragraph ''<b>PROGRAM :</b>'' Heading, Paragraph (safe_text p) Body]
             \<notin> set (build_story d)"
    if ge: "\<not> length (split_nl p) < 15"
  proof
    show "\<exists>pre post. build_story d = pre @
            [Paragraph ''<b>PROGRAM :</b>'' Heading, Paragraph (safe_text p) Body] @ post"
      using parts unfolding long [OF ge] by blast
    show "KeepTogether [Paragraph ''<b>PROGRAM :</b>'' Heading, Paragraph (safe_text p) Body]
             \<notin> set (build_story d)"
      using others_k unfolding set_build_story long [OF ge] by simp
  qed
  from a b length_split_nl [of p] show ?thesis by blast
qed


theorem program_kept_together_below_15_lines_witness:
  "(\<exists>pre post. build_story (Map.empty(''program'' \<mapsto> ''main(){}'')) = pre @
      [KeepTogether [Paragraph ''<b>PROGRAM :</b>'' Heading, Paragraph (safe_text ''main(){}'') Body]]
      @ post)
   \<and> (\<exists>pre post. build_story (Map.empty(''program'' \<mapsto> replicate 14 (CHR 0x0A))) = pre @
      [Paragraph ''<b>PROGRAM :</b>'' Heading, Paragraph (safe_text (replicate 14 (CHR 0x0A))) Body]
      @ post)"
proof -
  have a: "length (split_nl ''main(){}'') < 15" by code_simp
  have b: "\<not> length (split_nl (replicate 14 (CHR 0x0A))) < 15" by code_simp
  have c: "replicate 14 (CHR 0x0A) \<noteq> []" by code_simp
  from a
    program_kept_together_below_15_lines [of "Map.empty(''program'' \<mapsto> ''main(){}'')" "''main(){}''"]
  have "\<exists>pre post. build_story (Map.empty(''program'' \<mapsto> ''main(){}'')) = pre @
      [KeepTogether [Paragraph ''<b>PROGRAM :</b>'' Heading, Paragraph (safe_text ''main(){}'') Body]]
      @ post"
    by simp
  moreover from b c
    program_kept_together_below_15_lines [of "Map.empty(''program'' \<mapsto> replicate 14 (CHR 0x0A))"
      "replicate 14 (CHR 0x0A)"]
  have "\<exists>pre post. build_story (Map.empty(''program'' \<mapsto> replicate 14 (CHR 0x0A))) = pre @
      [Paragraph ''<b>PROGRAM :</b>'' Heading, Paragraph (safe_text (replicate 14 (CHR 0x0A))) Body]
      @ post"
    by simp
  ultimately show ?thesis by blast
qed

text \<open>
  C7. For a record with a non-empty output field, the story contains the output heading
  followed by a body block in the terminal style (\<open>TurboC\<close>) whose text is the
  escaped output with the label pattern removed. When the trimmed output starts with the
  letters \<open>output\<close> in any case, what is removed is these letters, whitespace, a run of
  separators and whitespace again.
\<close>

theorem output_label_stripped:
  assumes "d ''output'' = Some out" and "out \<noteq> []"
  shows "(\<exists>pre post. build_story d = pre @
            [Paragraph ''<b>OUTPUT :</b>'' Heading,
             Paragraph (safe_text (re_sub output_pattern (strip out))) TurboC] @ post)
    \<and> (\<forall>lbl rest. strip out = lbl @ rest \<and> lower lbl = ''output'' \<longrightarrow>
          re_sub output_pattern (strip out) =
            dropWhile py_isspace (dropWhile is_sep (dropWhile py_isspace rest)))"
proof -
  have og: "truthy d ''output'' = (out \<noteq> [])" "get d ''output'' [] = out"
    using assms(1) by (simp_all add: truthy_def get_def)
  have "output_section d [] = [Paragraph ''<b>OUTPUT :</b>'' Heading,
             Paragraph (safe_text (re_sub output_pattern (strip out))) TurboC]"
    using assms(2) by (simp add: output_section_def og)
  then have "build_story d =
      (header_section d [] @ aim_section d [] @ algorithm_section d [] @ program_section d [])
       @ [Paragraph ''<b>OUTPUT :</b>'' Heading,
             Paragraph (safe_text (re_sub output_pattern (strip out))) TurboC]
       @ result_section d []"
    by (simp add: build_story_parts)
  then have "\<exists>pre post. build_story d = pre @
            [Paragraph ''<b>OUTPUT :</b>'' Heading,
             Paragraph (safe_text (re_sub output_pattern (strip out))) TurboC] @ post"
    by blast
  then show ?thesis
    by (auto simp: re_sub_output_label)
qed

theorem output_label_stripped_witness:
  "\<exists>pre post. build_story (Map.empty(''output'' \<mapsto> ''OUTPUT: Hello World'')) = pre @
      [Paragraph ''<b>OUTPUT :</b>'' Heading, Paragraph ''Hello World'' TurboC] @ post"
proof -
  have a: "strip ''OUTPUT: Hello World'' = ''OUTPUT'' @ '': Hello World''" by code_simp
  have b: "lower ''OUTPUT'' = ''output''" by code_simp
  have c: "safe_text (dropWhile py_isspace (dropWhile is_sep (dropWhile py_isspace '': Hello World'')))
      = ''Hello World''" by code_simp
  from output_label_stripped [of "Map.empty(''output'' \<mapsto> ''OUTPUT: Hello World'')"
      "''OUTPUT: Hello World''"]
  have t: "(\<exists>pre post. build_story (Map.empty(''output'' \<mapsto> ''OUTPUT: Hello World'')) = pre @
            [Paragraph ''<b>OUTPUT :</b>'' Heading,
             Paragraph (safe_text (re_sub output_pattern (strip ''OUTPUT: Hello World''))) TurboC] @ post)"
    and u: "\<forall>lbl rest. strip ''OUTPUT: Hello World'' = lbl @ rest \<and> lower lbl = ''output'' \<longrightarrow>
          re_sub output_pattern (strip ''OUTPUT: Hello World'') =
            dropWhile py_isspace (dropWhile is_sep (dropWhile py_isspace rest))"
    by simp_all
  from u a b have "re_sub output_pattern (strip ''OUTPUT: Hello World'') =
      dropWhile py_isspace (dropWhile is_sep (dropWhile py_isspace '': Hello World''))"
    by blast
  with t c show ?thesis by simp
qed

text \<open>
  C9. The label pattern asks for no word boundary: the letters \<open>output\<close> are removed
  whatever follows them. For the output field \<open>Outputs are correct\<close> the body block
  reads \<open>s are correct\<close>.
\<close>

theorem output_label_needs_no_word_boundary:
  "re_sub output_pattern (strip ''Outputs are correct'') = ''s are correct''
   \<and> (\<exists>pre. build_story (Map.empty(''output'' \<mapsto> ''Outputs are correct'')) =
         pre @ [Paragraph ''<b>OUTPUT :</b>'' Heading, Paragraph ''s are correct'' TurboC])
   \<and> (\<forall>rest. re_sub output_pattern (''output'' @ rest) =
         dropWhile py_isspace (dropWhile is_sep (dropWhile py_isspace rest)))"
proof -
  have a: "re_sub output_pattern (strip ''Outputs are correct'') = ''s are correct''"
    by code_simp
  have b: "safe_text ''s are correct'' = ''s are correct''"
    by code_simp
  have c: "output_section (Map.empty(''output'' \<mapsto> ''Outputs are correct'')) [] =
       [Paragraph ''<b>OUTPUT :</b>'' Heading, Paragraph ''s are correct'' TurboC]"
    by (simp add: output_section_def truthy_def get_def a b)
  have d: "\<forall>rest. re_sub output_pattern (''output'' @ rest) =
         dropWhile py_isspace (dropWhile is_sep (dropWhile py_isspace rest))"
    using re_sub_output_label [OF lower_output] by blast
  have r: "result_section (Map.empty(''output'' \<mapsto> ''Outputs are correct'')) [] = []"
    by (simp add: result_section_def truthy_def)
  have "build_story (Map.empty(''output'' \<mapsto> ''Outputs are correct'')) =
      (header_section (Map.empty(''output'' \<mapsto> ''Outputs are correct'')) []
        @ aim_section (Map.empty(''output'' \<mapsto> ''Outputs are correct'')) []
        @ algorithm_section (Map.empty(''output'' \<mapsto> ''Outputs are correct'')) []
        @ program_section (Map.empty(''output'' \<mapsto> ''Outputs are correct'')) [])
      @ output_section (Map.empty(''output'' \<mapsto> ''Outputs are correct'')) []"
    unfolding build_story_parts r by simp
  then have e: "\<exists>pre. build_story (Map.empty(''output'' \<mapsto> ''Outputs are correct'')) =
         pre @ [Paragraph ''<b>OUTPUT :</b>'' Heading, Paragraph ''s are correct'' TurboC]"
    unfolding c by blast
  from a e d show ?thesis by blast
qed

section \<open>The bottom-pin spacer negotiates the remaining height\<close>




section \<open>The page decorator and the watermark\<close>






section \<open>Normalizing the normalized text again\<close>

lemma last_dropWhile: "dropWhile P xs \<noteq> [] \<Longrightarrow> last (dropWhile P xs) = last xs"
  by (induction xs) (auto split: if_splits)

lemma strip_ends:
  assumes "strip s \<noteq> []"
  shows "\<not> py_isspace (hd (strip s)) \<and> \<not> py_isspace (last (strip s))"
proof -
  let ?u = "dropWhile py_isspace s"
  let ?v = "dropWhile py_isspace (rev ?u)"
  from assms have v: "?v \<noteq> []" by (simp add: strip_def)
  have u: "?u \<noteq> []"
  proof
    assume "?u = []"
    then have "?v = []" by (simp only: rev.simps dropWhile.simps)
    with v show False by (rule notE)
  qed
  have "\<not> py_isspace (hd ?v)" using v by (rule hd_dropWhile)
  then have a: "\<not> py_isspace (last (strip s))" using v by (simp add: strip_def last_rev)
  have "last ?v = last (rev ?u)" using v by (rule last_dropWhile)
  also have "\<dots> = hd ?u" using u by (simp add: last_rev)
  finally have "hd (strip s) = hd ?u" using v by (simp add: strip_def hd_rev)
  moreover have "\<not> py_isspace (hd ?u)" using u by (rule hd_dropWhile)
  ultimately show ?thesis using a by simp
qed

lemma strip_fixed:
  assumes "s \<noteq> []" and "\<not> py_isspace (hd s)" and "\<not> py_isspace (last s)"
  shows "strip s = s"
proof -
  from assms(1,2) have a: "dropWhile py_isspace s = s" by (cases s) auto
  from assms(1,3) have "dropWhile py_isspace (rev s) = rev s"
    by (cases "rev s") (auto simp: hd_rev [symmetric])
  with a show ?thesis by (simp add: strip_def)
qed

lemma set_strip: "set (strip s) \<subseteq> set s"
  by (auto simp: strip_def dest!: set_dropWhileD)

lemma match_items_subset: "match_items pat s = Some r \<Longrightarrow> set r \<subseteq> set s"
  by (induction pat s arbitrary: r rule: match_items.induct)
     (auto split: if_splits option.splits)

lemma set_clean_line: "set (clean_line s) \<subseteq> set s"
  using set_strip [of "re_sub step_pattern s"] match_items_subset [of step_pattern s]
  by (auto simp: clean_line_def re_sub_def split: option.splits)

lemma split_nl_no_nl: "l \<in> set (split_nl s) \<Longrightarrow> CHR 0x0A \<notin> set l"
  by (induction s arbitrary: l) (auto split: if_splits list.splits)

lemma processed_lines_no_nl:
  assumes "l \<in> set (processed_lines x)"
  shows "CHR 0x0A \<notin> set l"
proof -
  from processed_lines_elems [OF assms] obtain line where
    line: "line \<in> set (split_nl x)" and l: "l = clean_line (strip line)" by blast
  from line have "CHR 0x0A \<notin> set line" by (rule split_nl_no_nl)
  with set_strip [of line] set_clean_line [of "strip line"] l show ?thesis by blast
qed

lemma processed_lines_trimmed:
  assumes "l \<in> set (processed_lines x)"
  shows "\<not> py_isspace (hd l) \<and> \<not> py_isspace (last l)"
proof -
  from processed_lines_elems [OF assms] obtain line where
    l: "l = clean_line (strip line)" and u: "usable l" by blast
  from u have "l \<noteq> []" by (simp add: usable_def)
  with l show ?thesis using strip_ends [of "re_sub step_pattern (strip line)"]
    by (simp add: clean_line_def)
qed

lemma lower_Step: "lower ''Step'' = ''step''"
  by code_simp

lemma colon_facts:
  "is_sep (CHR '':'')" "\<not> py_isspace (CHR '':'')" "\<not> py_isdigit (CHR '':'')"
  "py_isspace (CHR '' '')" "\<not> py_isspace (CHR ''S'')"
  by code_simp+

lemma clean_line_step_line:
  assumes "l \<noteq> []" and "\<not> py_isspace (hd l)" and "\<not> py_isspace (last l)"
  shows "clean_line (step_line k l) = l"
proof -
  have ws1: "\<forall>c\<in>set '' ''. py_isspace c" by (simp add: colon_facts)
  have ws2: "\<forall>c\<in>set []. py_isspace c" by simp
  have ds: "show_nat k \<noteq> []" "\<forall>c\<in>set (show_nat k). py_isdigit c"
    using show_nat_nonempty show_nat_digits by blast+
  have t: "'': '' @ l = [] \<or> (\<not> py_isspace (hd ('': '' @ l)) \<and> \<not> py_isdigit (hd ('': '' @ l)))"
    by (simp add: colon_facts)
  have "clean_line (''Step'' @ '' '' @ show_nat k @ [] @ '': '' @ l) = strip (tl ('': '' @ l))"
    using clean_line_labelled [OF lower_Step ws1 ds ws2 t] by (simp add: colon_facts)
  moreover have "strip (tl ('': '' @ l)) = strip l"
    by (simp add: strip_def colon_facts)
  moreover have "strip l = l" using assms by (rule strip_fixed)
  ultimately show ?thesis by (simp add: step_line_def)
qed

lemma strip_step_line:
  assumes "l \<noteq> []" and "\<not> py_isspace (last l)"
  shows "strip (step_line k l) = step_line k l"
proof (rule strip_fixed)
  show "step_line k l \<noteq> []" by (simp add: step_line_def)
  show "\<not> py_isspace (hd (step_line k l))" by (simp add: step_line_def colon_facts)
  show "\<not> py_isspace (last (step_line k l))" using assms by (simp add: step_line_def)
qed

lemma process_line_step_line:
  assumes "usable l" and "\<not> py_isspace (hd l)" and "\<not> py_isspace (last l)" and "l \<notin> set acc"
  shows "process_line acc (step_line k l) = acc @ [l]"
proof -
  from assms(1) have ne: "l \<noteq> []" by (simp add: usable_def)
  show ?thesis
    using assms(1,4)
    by (simp add: process_line_eq strip_step_line [OF ne assms(3)]
        clean_line_step_line [OF ne assms(2,3)])
qed

lemma foldl_process_step_lines:
  "length ks = length ls \<Longrightarrow> distinct (acc @ ls) \<Longrightarrow>
   \<forall>l\<in>set ls. usable l \<and> \<not> py_isspace (hd l) \<and> \<not> py_isspace (last l) \<Longrightarrow>
   foldl process_line acc (map2 step_line ks ls) = acc @ ls"
proof (induction ks ls arbitrary: acc rule: list_induct2)
  case Nil
  then show ?case by simp
next
  case (Cons k ks l ls)
  from Cons.prems have "process_line acc (step_line k l) = acc @ [l]"
    by (intro process_line_step_line) auto
  moreover from Cons.prems have "foldl process_line (acc @ [l]) (map2 step_line ks ls) = (acc @ [l]) @ ls"
    by (intro Cons.IH) auto
  ultimately show ?case by simp
qed

lemma split_nl_line:
  "CHR 0x0A \<notin> set l \<Longrightarrow> split_nl (l @ CHR 0x0A # rest) = l # split_nl rest"
  by (induction l) auto

lemma split_nl_last: "CHR 0x0A \<notin> set l \<Longrightarrow> split_nl l = [l]"
  by (induction l) auto

lemma split_nl_join_nl:
  "lines \<noteq> [] \<Longrightarrow> \<forall>l\<in>set lines. CHR 0x0A \<notin> set l \<Longrightarrow> split_nl (join_nl lines) = lines"
proof (induction lines rule: join_nl.induct)
  case 1
  then show ?case by simp
next
  case (2 l)
  then show ?case by (simp add: split_nl_last)
next
  case (3 l m ls)
  then show ?case by (simp add: split_nl_line)
qed

lemma step_line_no_nl: "CHR 0x0A \<notin> set t \<Longrightarrow> CHR 0x0A \<notin> set (step_line k t)"
  by (auto simp: step_line_def py_isdigit_def dest: show_nat_digits)

lemma numbered_map2:
  "map (\<lambda>j. step_line (j + 2) (ps ! j)) [0..<length ps]
     = map2 step_line (map (\<lambda>j. j + 2) [0..<length ps]) ps"
  by (rule nth_equalityI) simp_all

lemma processed_relabelled:
  "processed_lines (join_nl (map (\<lambda>j. step_line (j + 2) (processed_lines x ! j))
      [0..<length (processed_lines x)])) = processed_lines x"
proof (cases "processed_lines x = []")
  case True
  then show ?thesis by (simp add: processed_lines_Nil)
next
  case False
  let ?ps = "processed_lines x"
  let ?lines = "map (\<lambda>j. step_line (j + 2) (?ps ! j)) [0..<length ?ps]"
  have "CHR 0x0A \<notin> set (step_line (j + 2) (?ps ! j))" if "j < length ?ps" for j
    using that by (intro step_line_no_nl processed_lines_no_nl [of _ x]) simp
  then have "\<forall>l\<in>set ?lines. CHR 0x0A \<notin> set l"
    by auto
  moreover have "?lines \<noteq> []" using False by simp
  ultimately have "split_nl (join_nl ?lines) = ?lines" by (intro split_nl_join_nl)
  then have "processed_lines (join_nl ?lines) =
      foldl process_line [] (map2 step_line (map (\<lambda>j. j + 2) [0..<length ?ps]) ?ps)"
    by (simp only: processed_lines_def numbered_map2)
  also have "\<dots> = [] @ ?ps"
    using processed_lines_distinct [of x] processed_lines_usable [of _ x]
      processed_lines_trimmed [of _ x]
    by (intro foldl_process_step_lines) auto
  finally show ?thesis by simp
qed

lemma middle_text_normalize:
  "middle_text (normalize x) =
     join_nl (map (\<lambda>j. step_line (j + 2) (html_escape (processed_lines x ! j)))
       [0..<length (processed_lines x)])"
  by (simp add: middle_text_def normalize_def split_br_alg_html butlast_append)

text \<open>
  C5, as the code has it. Relabelling the kept steps and processing them again gives the
  same steps in the same order. The formatted text, however, holds the escaped steps:
  reading it back (its lines without the first and the last) and normalizing again gives
  the same steps and the same formatted text when escaping leaves every kept step as it is,
  that is, when none contains one of the five characters that \<open>html.escape\<close> rewrites.
\<close>

theorem renormalizing_keeps_unescaped_steps:
  "processed_lines (join_nl (map (\<lambda>j. ''Step '' @ show_nat (j + 2) @ '': '' @ processed_lines x ! j)
      [0..<length (processed_lines x)])) = processed_lines x
   \<and> ((\<forall>l\<in>set (processed_lines x). html_escape l = l) \<longrightarrow>
         processed_lines (middle_text (normalize x)) = processed_lines x
       \<and> normalize (middle_text (normalize x)) = normalize x)"
proof -
  have a: "processed_lines (join_nl (map (\<lambda>j. ''Step '' @ show_nat (j + 2) @ '': '' @ processed_lines x ! j)
      [0..<length (processed_lines x)])) = processed_lines x"
    using processed_relabelled [of x] by (simp add: step_line_def)
  have b: "processed_lines (middle_text (normalize x)) = processed_lines x"
    if "\<forall>l\<in>set (processed_lines x). html_escape l = l"
  proof -
    from that have "map (\<lambda>j. step_line (j + 2) (html_escape (processed_lines x ! j)))
        [0..<length (processed_lines x)]
      = map (\<lambda>j. step_line (j + 2) (processed_lines x ! j)) [0..<length (processed_lines x)]"
      by (intro map_cong) simp_all
    then show ?thesis
      by (simp only: middle_text_normalize processed_relabelled)
  qed
  from a b show ?thesis by (simp add: normalize_def)
qed

text \<open>
  C5, as stated, fails: for the algorithm text \<open>a<b\<close> the formatted text holds the step
  \<open>a&lt;b\<close>; normalizing that again keeps the step \<open>a&lt;b\<close>, not \<open>a<b\<close>, and formats
  it as \<open>a&amp;lt;b\<close>.
\<close>

theorem renormalizing_escapes_twice:
  "processed_lines ''a<b'' = [''a<b'']
   \<and> normalize ''a<b'' = ''Step 1: Start the program<br/>Step 2: a&lt;b<br/>Step 3: Stop the program''
   \<and> middle_text (normalize ''a<b'') = ''Step 2: a&lt;b''
   \<and> processed_lines (middle_text (normalize ''a<b'')) = [''a&lt;b'']
   \<and> processed_lines (middle_text (normalize ''a<b'')) \<noteq> processed_lines ''a<b''
   \<and> normalize (middle_text (normalize ''a<b''))
        = ''Step 1: Start the program<br/>Step 2: a&amp;lt;b<br/>Step 3: Stop the program''
   \<and> normalize (middle_text (normalize ''a<b'')) \<noteq> normalize ''a<b''"
  by code_simp

theorem renormalizing_keeps_unescaped_steps_witness:
  "processed_lines (middle_text (normalize (''Step 1: Read a and b'' @ [CHR 0x0A] @ ''Step 2: Print sum'')))
     = [''Read a and b'', ''Print sum'']
   \<and> normalize (middle_text (normalize (''Step 1: Read a and b'' @ [CHR 0x0A] @ ''Step 2: Print sum'')))
     = normalize (''Step 1: Read a and b'' @ [CHR 0x0A] @ ''Step 2: Print sum'')"
proof -
  let ?x = "''Step 1: Read a and b'' @ [CHR 0x0A] @ ''Step 2: Print sum''"
  have p: "processed_lines ?x = [''Read a and b'', ''Print sum'']" by code_simp
  have e: "\<forall>l\<in>set (processed_lines ?x). html_escape l = l" by code_simp
  from renormalizing_keeps_unescaped_steps [of ?x] e
  have "processed_lines (middle_text (normalize ?x)) = processed_lines ?x
       \<and> normalize (middle_text (normalize ?x)) = normalize ?x"
    by blast
  then show ?thesis by (simp only: p simp_thms)
qed

end
